theory Spec2Isabelle
  imports Complex_Main "HOL-Library.Sublist"
begin

section \<open>Weight perturbation: data model\<close>

text \<open>
  The module \<^verbatim>\<open>weight_perturbation.py\<close> works on Python dictionaries from parameter
  names to numeric arrays. A dictionary is modelled as an association list in insertion
  order (the order \<^verbatim>\<open>items()\<close> iterates in); a well-formed dictionary has distinct
  keys. For the estimator the arrays are values of a real vector space \<open>'v\<close>:
  \<^verbatim>\<open>a + b\<close> is \<open>a + b\<close> and \<^verbatim>\<open>a * c\<close> with a scalar loss \<open>c\<close> is \<open>c *\<^sub>R a\<close>; these
  operations never raise. The attribute \<^verbatim>\<open>val.shape\<close> is an observation
  \<open>shape :: 'v \<Rightarrow> 'sh\<close> handed to the functions that read it. The update rule squares
  and divides Python floats, which can raise, so its numbers are Python floats with
  their range, infinities and nan (see below).
\<close>

datatype error = ValueError string | KeyError string | ZeroDivisionError | OverflowError

type_synonym 'v dict = "(string \<times> 'v) list"

definition keys :: "'v dict \<Rightarrow> string list" where
  "keys d = map fst d"

text \<open>\<^verbatim>\<open>d[key]\<close>: the value stored under the key, or \<^verbatim>\<open>KeyError(key)\<close>.\<close>

definition getitem :: "'v dict \<Rightarrow> string \<Rightarrow> error + 'v" where
  "getitem d key = (case map_of d key of None \<Rightarrow> Inl (KeyError key) | Some v \<Rightarrow> Inr v)"

text \<open>
  \<^verbatim>\<open>d[key] = v\<close>: an existing key keeps its position and gets the new value, a new key
  is appended.
\<close>

primrec setitem :: "string \<Rightarrow> 'v \<Rightarrow> 'v dict \<Rightarrow> 'v dict" where
  "setitem key v [] = [(key, v)]"
| "setitem key v (p # ps) = (if fst p = key then (key, v) # ps else p # setitem key v ps)"

text \<open>
  A dictionary comprehension \<^verbatim>\<open>{key: f(key, val) for key, val in d.items()}\<close>: the items
  are visited in order, each value is computed and stored, and the first exception
  raised by \<open>f\<close> ends the comprehension.
\<close>

fun dict_comp :: "(string \<Rightarrow> 'a \<Rightarrow> error + 'b) \<Rightarrow> 'a dict \<Rightarrow> 'b dict \<Rightarrow> error + 'b dict" where
  "dict_comp f [] acc = Inr acc"
| "dict_comp f ((key, val) # items) acc =
     (case f key val of
        Inl e \<Rightarrow> Inl e
      | Inr x \<Rightarrow> dict_comp f items (setitem key x acc))"

subsection \<open>The external capabilities\<close>

text \<open>
  The sampler and the forward pass are supplied by the caller and may have effects of
  their own (a random number generator, a call counter). Both are state transformers on
  a world \<open>'w\<close>. The state also keeps the list of calls made to the two capabilities, in
  order, so that "how often was it called, and with what" can be stated.
\<close>

datatype ('sh, 'i, 'v) call = SampleCall 'sh | ForwardCall 'i "'v dict"

record ('w, 'sh, 'i, 'v) state =
  world :: 'w
  calls :: "('sh, 'i, 'v) call list"

record ('w, 'sh, 'v) distribution =
  sample :: "'sh \<Rightarrow> 'w \<Rightarrow> 'v \<times> 'w"

type_synonym ('w, 'i, 'v) forward = "'i \<Rightarrow> 'v dict \<Rightarrow> 'w \<Rightarrow> real \<times> 'w"

text \<open>\<^verbatim>\<open>sampler.sample(sample_shape=sh)\<close>\<close>

definition call_sample ::
  "('w, 'sh, 'v) distribution \<Rightarrow> 'sh \<Rightarrow> ('w, 'sh, 'i, 'v) state \<Rightarrow> 'v \<times> ('w, 'sh, 'i, 'v) state" where
  "call_sample sampler sh s =
     (let (x, w') = sample sampler sh (world s)
      in (x, s\<lparr>world := w', calls := calls s @ [SampleCall sh]\<rparr>))"

text \<open>\<^verbatim>\<open>forward_pass(inputs, p)\<close>\<close>

definition call_forward ::
  "('w, 'i, 'v) forward \<Rightarrow> 'i \<Rightarrow> 'v dict \<Rightarrow> ('w, 'sh, 'i, 'v) state \<Rightarrow> real \<times> ('w, 'sh, 'i, 'v) state" where
  "call_forward forward_pass inputs p s =
     (let (loss, w') = forward_pass inputs p (world s)
      in (loss, s\<lparr>world := w', calls := calls s @ [ForwardCall inputs p]\<rparr>))"

fun is_forward :: "('sh, 'i, 'v) call \<Rightarrow> bool" where
  "is_forward (ForwardCall i p) = True"
| "is_forward (SampleCall sh) = False"

section \<open>The functions of the module\<close>

subsection \<open>dictionary\_add, dictionary\_mult\<close>

text \<open>\<^verbatim>\<open>return {key: val + dict2[key] for key, val in dict1.items()}\<close>\<close>

definition dictionary_add :: "('v::plus) dict \<Rightarrow> 'v dict \<Rightarrow> error + 'v dict" where
  "dictionary_add dict1 dict2 =
     dict_comp (\<lambda>key val. case getitem dict2 key of Inl e \<Rightarrow> Inl e | Inr v2 \<Rightarrow> Inr (val + v2))
       dict1 []"

text \<open>\<^verbatim>\<open>return {key: val * c for key, val in dictionary.items()}\<close>: no step can raise.\<close>

definition dictionary_mult :: "('v::real_vector) dict \<Rightarrow> real \<Rightarrow> 'v dict" where
  "dictionary_mult dictionary c =
     fold (\<lambda>(key, val) acc. setitem key (c *\<^sub>R val) acc) dictionary []"

subsection \<open>Python floats\<close>

text \<open>
  A Python float is a finite number, an infinity or nan. The model keeps what decides
  whether line 23 raises and what it returns on special values: the range of a binary64
  number (a result of magnitude at most \<^verbatim>\<open>2**-1075\<close> is zero, a result of magnitude at least
  \<^verbatim>\<open>2**1024 - 2**970\<close> is an infinity), the infinities and nan. Rounding of the mantissa to 53
  bits is not modelled: a result within the range is the exact real. The two zeros are
  identified, as Python's \<^verbatim>\<open>==\<close> does. \<open>Inf True\<close> is \<^verbatim>\<open>-inf\<close>, \<open>Inf False\<close> is \<^verbatim>\<open>inf\<close>.
\<close>

datatype pyfloat = Finite real | Inf bool | NaN

text \<open>The float that an exact result becomes.\<close>

definition fl :: "real \<Rightarrow> pyfloat" where
  "fl x = (if \<bar>x\<bar> \<le> 1 / 2 ^ 1075 then Finite 0
           else if 2 ^ 1024 - 2 ^ 970 \<le> \<bar>x\<bar> then Inf (x < 0)
           else Finite x)"

text \<open>A value a Python float can hold.\<close>

fun is_float :: "pyfloat \<Rightarrow> bool" where
  "is_float (Finite x) = (fl x = Finite x)"
| "is_float (Inf s) = True"
| "is_float NaN = True"

fun is_finite :: "pyfloat \<Rightarrow> bool" where
  "is_finite (Finite x) = True"
| "is_finite (Inf s) = False"
| "is_finite NaN = False"

text \<open>\<^verbatim>\<open>-a\<close>\<close>

fun py_neg :: "pyfloat \<Rightarrow> pyfloat" where
  "py_neg (Finite x) = Finite (- x)"
| "py_neg (Inf s) = Inf (\<not> s)"
| "py_neg NaN = NaN"

text \<open>\<^verbatim>\<open>a + b\<close>: never raises; \<^verbatim>\<open>inf + -inf\<close> is nan.\<close>

fun py_add :: "pyfloat \<Rightarrow> pyfloat \<Rightarrow> pyfloat" where
  "py_add (Finite x) (Finite y) = fl (x + y)"
| "py_add (Finite x) (Inf t) = Inf t"
| "py_add (Inf s) (Finite y) = Inf s"
| "py_add (Inf s) (Inf t) = (if s = t then Inf s else NaN)"
| "py_add NaN b = NaN"
| "py_add a NaN = NaN"


text \<open>\<^verbatim>\<open>a * b\<close>: never raises; \<^verbatim>\<open>0 * inf\<close> is nan.\<close>

fun py_mul :: "pyfloat \<Rightarrow> pyfloat \<Rightarrow> pyfloat" where
  "py_mul (Finite x) (Finite y) = fl (x * y)"
| "py_mul (Finite x) (Inf t) = (if x = 0 then NaN else Inf (t \<noteq> (x < 0)))"
| "py_mul (Inf s) (Finite y) = (if y = 0 then NaN else Inf (s \<noteq> (y < 0)))"
| "py_mul (Inf s) (Inf t) = Inf (s \<noteq> t)"
| "py_mul NaN b = NaN"
| "py_mul a NaN = NaN"

text \<open>
  \<^verbatim>\<open>a / b\<close>: raises \<^verbatim>\<open>ZeroDivisionError\<close> when \<open>b\<close> is zero, whatever \<open>a\<close> is; an overflowing
  quotient is an infinity, without an exception.
\<close>

fun py_truediv :: "pyfloat \<Rightarrow> pyfloat \<Rightarrow> error + pyfloat" where
  "py_truediv a (Finite y) =
     (if y = 0 then Inl ZeroDivisionError
      else Inr (case a of Finite x \<Rightarrow> fl (x / y) | Inf s \<Rightarrow> Inf (s \<noteq> (y < 0)) | NaN \<Rightarrow> NaN))"
| "py_truediv a (Inf t) = Inr (case a of Finite x \<Rightarrow> Finite 0 | Inf s \<Rightarrow> NaN | NaN \<Rightarrow> NaN)"
| "py_truediv a NaN = Inr NaN"

text \<open>
  \<^verbatim>\<open>a ** 2\<close>: raises \<^verbatim>\<open>OverflowError\<close> when the square of a finite \<open>a\<close> is out of range; a
  square that underflows is zero, without an exception.
\<close>

fun py_square :: "pyfloat \<Rightarrow> error + pyfloat" where
  "py_square (Finite x) = (case fl (x * x) of Inf s \<Rightarrow> Inl OverflowError | q \<Rightarrow> Inr q)"
| "py_square (Inf s) = Inr (Inf False)"
| "py_square NaN = Inr NaN"

text \<open>\<^verbatim>\<open>+\<close> on dictionary entries that are Python floats.\<close>

instantiation pyfloat :: plus
begin

definition plus_pyfloat :: "pyfloat \<Rightarrow> pyfloat \<Rightarrow> pyfloat" where
  "plus_pyfloat a b = py_add a b"

instance ..

end

subsection \<open>update\_weights\<close>

text \<open>
  \<^verbatim>\<open>delta_W = {key: -lr / scale**2 * val for key, val in gradient.items()}\<close>
  \<^verbatim>\<open>return dictionary_add(delta_W, params)\<close>
  \<^verbatim>\<open>scale\<close> and \<^verbatim>\<open>lr\<close> are Python floats, and so are the entries of the two dictionaries
  (as in the specification's example). For each item of the gradient the expression
  negates \<^verbatim>\<open>lr\<close>, squares \<^verbatim>\<open>scale\<close> (\<^verbatim>\<open>OverflowError\<close>), divides (\<^verbatim>\<open>ZeroDivisionError\<close> when
  the square is zero) and multiplies by the entry; an empty gradient evaluates nothing.
\<close>

definition update_weights ::
  "pyfloat dict \<Rightarrow> pyfloat dict \<Rightarrow> pyfloat \<Rightarrow> pyfloat \<Rightarrow> error + pyfloat dict" where
  "update_weights gradient params scale lr =
     (case dict_comp
             (\<lambda>key val.
                case py_square scale of
                  Inl e \<Rightarrow> Inl e
                | Inr q \<Rightarrow>
                   (case py_truediv (py_neg lr) q of
                      Inl e \<Rightarrow> Inl e
                    | Inr c \<Rightarrow> Inr (py_mul c val)))
             gradient [] of
        Inl e \<Rightarrow> Inl e
      | Inr delta_W \<Rightarrow> dictionary_add delta_W params)"

subsection \<open>sample\_perturbation\<close>

text \<open>
  \<^verbatim>\<open>h = {}\<close>
  \<^verbatim>\<open>for key, val in params.items(): h[key] = sampler.sample(sample_shape=val.shape)\<close>
  \<^verbatim>\<open>return h\<close>
\<close>

fun sample_loop ::
  "('w, 'sh, 'v) distribution \<Rightarrow> ('v \<Rightarrow> 'sh) \<Rightarrow> 'v dict \<Rightarrow> 'v dict \<Rightarrow> ('w, 'sh, 'i, 'v) state
    \<Rightarrow> 'v dict \<times> ('w, 'sh, 'i, 'v) state" where
  "sample_loop sampler shape [] h s = (h, s)"
| "sample_loop sampler shape ((key, val) # items) h s =
     (let (x, s') = call_sample sampler (shape val) s
      in sample_loop sampler shape items (setitem key x h) s')"

definition sample_perturbation ::
  "('w, 'sh, 'v) distribution \<Rightarrow> ('v \<Rightarrow> 'sh) \<Rightarrow> 'v dict \<Rightarrow> ('w, 'sh, 'i, 'v) state
    \<Rightarrow> 'v dict \<times> ('w, 'sh, 'i, 'v) state" where
  "sample_perturbation sampler shape params s = sample_loop sampler shape params [] s"

subsection \<open>compute\_gradient, compute\_gradient\_vector\<close>

definition invalid_option :: string where
  \<open>invalid_option = ''Invalid option given. Choose between: {"ffd", "cfd"}''\<close>

definition compute_gradient ::
  "('w, 'i, 'v) forward \<Rightarrow> 'i \<Rightarrow> ('v::real_vector) dict \<Rightarrow> ('w, 'sh, 'v) distribution
    \<Rightarrow> ('v \<Rightarrow> 'sh) \<Rightarrow> string \<Rightarrow> ('w, 'sh, 'i, 'v) state
    \<Rightarrow> (error + 'v dict) \<times> ('w, 'sh, 'i, 'v) state" where
  "compute_gradient forward_pass inputs params sampler shape method s =
     (let (h, s1) = sample_perturbation sampler shape params s in
      if method = ''ffd'' then
        (let (clean_loss, s2) = call_forward forward_pass inputs params s1 in
         case dictionary_add params h of
           Inl e \<Rightarrow> (Inl e, s2)
         | Inr p_plus \<Rightarrow>
            (let (perturbed_loss, s3) = call_forward forward_pass inputs p_plus s2
             in (Inr (dictionary_mult h (perturbed_loss - clean_loss)), s3)))
      else if method = ''cfd'' then
        (case dictionary_add params h of
           Inl e \<Rightarrow> (Inl e, s1)
         | Inr p_plus \<Rightarrow>
            (let (perturbed_loss, s2) = call_forward forward_pass inputs p_plus s1 in
             case dictionary_add params (dictionary_mult h (- 1)) of
               Inl e \<Rightarrow> (Inl e, s2)
             | Inr p_minus \<Rightarrow>
                (let (neg_perturbed_loss, s3) = call_forward forward_pass inputs p_minus s2
                 in (Inr (dictionary_mult h (perturbed_loss - neg_perturbed_loss)), s3))))
      else (Inl (ValueError invalid_option), s1))"

definition compute_gradient_vector ::
  "('w, 'i, 'v) forward \<Rightarrow> 'i \<Rightarrow> ('v::real_vector) dict \<Rightarrow> ('w, 'sh, 'v) distribution
    \<Rightarrow> ('v \<Rightarrow> 'sh) \<Rightarrow> string \<Rightarrow> ('w, 'sh, 'i, 'v) state
    \<Rightarrow> (error + 'v dict) \<times> ('w, 'sh, 'i, 'v) state" where
  "compute_gradient_vector forward_pass inputs params sampler shape method s =
     (let (h, s1) = sample_perturbation sampler shape params s in
      if method = ''ffd'' then
        (let (clean_loss, s2) = call_forward forward_pass inputs params s1 in
         case dictionary_add params h of
           Inl e \<Rightarrow> (Inl e, s2)
         | Inr p_plus \<Rightarrow>
            (let (perturbed_loss, s3) = call_forward forward_pass inputs p_plus s2
             in (Inr (dictionary_mult h (perturbed_loss - clean_loss)), s3)))
      else if method = ''cfd'' then
        (case dictionary_add params h of
           Inl e \<Rightarrow> (Inl e, s1)
         | Inr p_plus \<Rightarrow>
            (let (perturbed_loss, s2) = call_forward forward_pass inputs p_plus s1 in
             case dictionary_add params (dictionary_mult h (- 1)) of
               Inl e \<Rightarrow> (Inl e, s2)
             | Inr p_minus \<Rightarrow>
                (let (neg_perturbed_loss, s3) = call_forward forward_pass inputs p_minus s2
                 in (Inr (dictionary_mult h (perturbed_loss - neg_perturbed_loss)), s3))))
      else (Inl (ValueError invalid_option), s1))"

subsection \<open>Stub capabilities for concrete runs\<close>

text \<open>
  A deterministic sampler that returns the scalar \<open>1\<close> whatever the shape (an all-ones
  perturbation of scalar parameters), the shape of a scalar, and a forward pass that
  counts its calls in the world and returns \<open>first\<close> on its first call and \<open>second\<close>
  afterwards.
\<close>

definition ones_sampler :: "(nat, nat list, real) distribution" where
  "ones_sampler = \<lparr>sample = (\<lambda>sh w. (1, w))\<rparr>"

text \<open>A sampler with a state: its \<open>n\<close>-th call (from \<open>0\<close>) returns the scalar \<open>n\<close>.\<close>

definition counting_sampler :: "(nat, nat list, real) distribution" where
  "counting_sampler = \<lparr>sample = (\<lambda>sh n. (real n, Suc n))\<rparr>"

definition scalar_shape :: "real \<Rightarrow> nat list" where
  "scalar_shape x = []"

definition counting_forward :: "real \<Rightarrow> real \<Rightarrow> (nat, unit, real) forward" where
  "counting_forward first second inputs p n = (if n = 0 then first else second, Suc n)"

section \<open>Properties of the dictionary operations\<close>

lemma setitem_fresh: "key \<notin> set (keys d) \<Longrightarrow> setitem key v d = d @ [(key, v)]"
  by (induction d) (auto simp: keys_def)

lemma dict_comp_ok:
  "distinct (keys items) \<Longrightarrow> set (keys acc) \<inter> set (keys items) = {} \<Longrightarrow>
   (\<And>k v. (k, v) \<in> set items \<Longrightarrow> f k v = Inr (g k v)) \<Longrightarrow>
   dict_comp f items acc = Inr (acc @ map (\<lambda>(k, v). (k, g k v)) items)"
proof (induction items arbitrary: acc)
  case Nil
  then show ?case by simp
next
  case (Cons p items)
  obtain k v where p: "p = (k, v)" by (cases p)
  have fresh: "k \<notin> set (keys acc)" using Cons.prems(2) by (auto simp: p keys_def)
  have f: "f k v = Inr (g k v)" using Cons.prems(3) by (simp add: p)
  have "dict_comp f items (acc @ [(k, g k v)]) = Inr ((acc @ [(k, g k v)]) @ map (\<lambda>(k, v). (k, g k v)) items)"
    using Cons.prems by (intro Cons.IH) (auto simp: p keys_def)
  then show ?case by (simp add: p f setitem_fresh[OF fresh])
qed


lemma dict_comp_first_error:
  "find (\<lambda>(k, v). isl (f k v)) items = Some (k, v) \<Longrightarrow> f k v = Inl e \<Longrightarrow> dict_comp f items acc = Inl e"
proof (induction items arbitrary: acc)
  case Nil
  then show ?case by simp
next
  case (Cons p items)
  obtain k' v' where p: "p = (k', v')" by (cases p)
  show ?case
  proof (cases "f k' v'")
    case (Inl e')
    then show ?thesis using Cons.prems by (simp add: p)
  next
    case (Inr x)
    then show ?thesis using Cons.prems Cons.IH by (simp add: p)
  qed
qed


lemma keys_map_values [simp]: "keys (map (\<lambda>(k, v). (k, g k v)) d) = keys d"
  by (induction d) (auto simp: keys_def)

lemma map_of_map_values:
  "map_of (map (\<lambda>(k, v). (k, g k v)) d) k = map_option (g k) (map_of d k)"
  by (induction d) auto

lemma getitem_Some: "map_of d key = Some v \<Longrightarrow> getitem d key = Inr v"
  by (simp add: getitem_def)

lemma getitem_None: "key \<notin> set (keys d) \<Longrightarrow> getitem d key = Inl (KeyError key)"
proof -
  assume "key \<notin> set (keys d)"
  then have "map_of d key = None" by (simp add: keys_def map_of_eq_None_iff)
  then show ?thesis by (simp add: getitem_def)
qed

lemma in_keys_map_of: "k \<in> set (keys d) \<Longrightarrow> \<exists>v. map_of d k = Some v"
  by (metis keys_def map_of_eq_None_iff not_Some_eq set_map)

lemma dictionary_add_ok:
  assumes "distinct (keys A)" "set (keys A) \<subseteq> set (keys B)"
  shows "dictionary_add A B = Inr (map (\<lambda>(k, v). (k, v + the (map_of B k))) A)"
  unfolding dictionary_add_def
proof (rule dict_comp_ok[where acc = "[]", simplified])
  show "distinct (keys A)" by fact
  fix k v assume "(k, v) \<in> set A"
  then have "k \<in> set (keys B)" using assms(2) by (force simp: keys_def)
  then obtain b where "map_of B k = Some b" using in_keys_map_of by blast
  then show "(case getitem B k of Inl e \<Rightarrow> Inl e | Inr v2 \<Rightarrow> Inr (v + v2)) = Inr (v + the (map_of B k))"
    by (simp add: getitem_Some)
qed (simp add: keys_def)

lemma dictionary_add_missing:
  assumes "find (\<lambda>k. k \<notin> set (keys B)) (keys A) = Some k"
  shows "dictionary_add A B = Inl (KeyError k)"
proof -
  let ?f = "\<lambda>key val. case getitem B key of Inl e \<Rightarrow> Inl e | Inr v2 \<Rightarrow> Inr (val + v2)"
  have isl: "isl (?f key val) \<longleftrightarrow> key \<notin> set (keys B)" for key val
    by (cases "key \<in> set (keys B)") (auto simp: getitem_None dest!: in_keys_map_of getitem_Some)
  have "\<exists>v. find (\<lambda>(k, v). isl (?f k v)) A = Some (k, v)"
    using assms unfolding isl
  proof (induction A)
    case Nil
    then show ?case by (simp add: keys_def)
  next
    case (Cons p A)
    obtain k' v' where p: "p = (k', v')" by (cases p)
    show ?case
    proof (cases "k' \<in> set (keys B)")
      case True
      then show ?thesis using Cons by (simp add: p keys_def)
    next
      case False
      then show ?thesis using Cons.prems by (simp add: p keys_def)
    qed
  qed
  then obtain v where v: "find (\<lambda>(k, v). isl (?f k v)) A = Some (k, v)" ..
  then have "isl (?f k v)" by (auto simp: find_Some_iff)
  then have "k \<notin> set (keys B)" using isl by blast
  then have "?f k v = Inl (KeyError k)" by (simp add: getitem_None)
  from dict_comp_first_error[OF v this] show ?thesis by (simp add: dictionary_add_def)
qed

lemma sample_loop_append:
  "sample_loop sampler shape (xs @ ys) h s =
     (let (h', s') = sample_loop sampler shape xs h s in sample_loop sampler shape ys h' s')"
  by (induction xs arbitrary: h s) (auto simp: Let_def split: prod.splits)

lemma sample_loop_keys:
  "distinct (keys items) \<Longrightarrow> set (keys acc) \<inter> set (keys items) = {} \<Longrightarrow>
   \<exists>xs. fst (sample_loop sampler shape items acc s) = acc @ xs \<and> keys xs = keys items"
proof (induction items arbitrary: acc s)
  case Nil
  then show ?case by (simp add: keys_def)
next
  case (Cons p items)
  obtain k v where p: "p = (k, v)" by (cases p)
  obtain x s' where cs: "call_sample sampler (shape v) s = (x, s')" by (cases "call_sample sampler (shape v) s")
  have fresh: "k \<notin> set (keys acc)" using Cons.prems(2) by (auto simp: p keys_def)
  have "\<exists>xs. fst (sample_loop sampler shape items (acc @ [(k, x)]) s') = (acc @ [(k, x)]) @ xs \<and> keys xs = keys items"
    using Cons.prems by (intro Cons.IH) (auto simp: p keys_def)
  then obtain xs where "fst (sample_loop sampler shape items (acc @ [(k, x)]) s') = acc @ (k, x) # xs" "keys xs = keys items"
    by auto
  then show ?case
    by (intro exI[of _ "(k, x) # xs"]) (simp add: p cs setitem_fresh[OF fresh] keys_def)
qed

lemma sample_perturbation_keys:
  "distinct (keys params) \<Longrightarrow> keys (fst (sample_perturbation sampler shape params s)) = keys params"
  using sample_loop_keys[of params "[]" sampler shape s]
  by (auto simp: sample_perturbation_def keys_def)

lemma sample_loop_calls:
  "calls (snd (sample_loop sampler shape items acc s)) = calls s @ map (\<lambda>(k, v). SampleCall (shape v)) items"
proof (induction items arbitrary: acc s)
  case Nil
  then show ?case by simp
next
  case (Cons p items)
  obtain k v where p: "p = (k, v)" by (cases p)
  obtain x s' where cs: "call_sample sampler (shape v) s = (x, s')" by (cases "call_sample sampler (shape v) s")
  then have "calls s' = calls s @ [SampleCall (shape v)]"
    by (auto simp: call_sample_def Let_def split: prod.splits)
  then show ?case using Cons.IH[of "setitem k x acc" s'] by (simp add: p cs)
qed

lemma sample_perturbation_calls:
  "calls (snd (sample_perturbation sampler shape params s)) = calls s @ map (\<lambda>(k, v). SampleCall (shape v)) params"
  by (simp add: sample_perturbation_def sample_loop_calls)


lemma dict_comp_keys:
  "dict_comp f items acc = Inr r \<Longrightarrow> distinct (keys items) \<Longrightarrow>
   set (keys acc) \<inter> set (keys items) = {} \<Longrightarrow> keys r = keys acc @ keys items"
proof (induction items arbitrary: acc)
  case Nil
  then show ?case by (simp add: keys_def)
next
  case (Cons p items)
  obtain k v where p: "p = (k, v)" by (cases p)
  have fresh: "k \<notin> set (keys acc)" using Cons.prems(3) by (auto simp: p keys_def)
  from Cons.prems(1) obtain x where x: "f k v = Inr x"
    and rest: "dict_comp f items (acc @ [(k, x)]) = Inr r"
    by (auto simp: p setitem_fresh[OF fresh] split: sum.splits)
  have "keys r = keys (acc @ [(k, x)]) @ keys items"
    using rest Cons.prems(2,3) by (intro Cons.IH) (auto simp: p keys_def)
  then show ?case by (simp add: p keys_def)
qed

lemma dictionary_add_keys:
  "dictionary_add A B = Inr C \<Longrightarrow> distinct (keys A) \<Longrightarrow> keys C = keys A"
  using dict_comp_keys[of _ A "[]" C] by (simp add: dictionary_add_def keys_def)

section \<open>Adding dictionaries\<close>

lemma find_missing_key:
  "\<not> set ks \<subseteq> S \<Longrightarrow> \<exists>k. find (\<lambda>k. k \<notin> S) ks = Some k \<and> k \<in> set ks \<and> k \<notin> S"
proof (induction ks)
  case Nil
  then show ?case by simp
next
  case (Cons k ks)
  show ?case
  proof (cases "k \<in> S")
    case True
    with Cons.prems have "\<not> set ks \<subseteq> S" by simp
    from Cons.IH[OF this] obtain k' where "find (\<lambda>k. k \<notin> S) ks = Some k'" "k' \<in> set ks" "k' \<notin> S"
      by (elim exE conjE)
    with True show ?thesis by (intro exI[of _ k']) simp
  next
    case False
    then show ?thesis by (intro exI[of _ k]) simp
  qed
qed

text \<open>
  Claim C6. \<open>dictionary_add A B\<close> iterates over the keys of \<open>A\<close>. When every key of \<open>A\<close>
  is a key of \<open>B\<close> it returns a dictionary \<open>C\<close> with the keys of \<open>A\<close> (in the order
  of \<open>A\<close>) and \<open>C[k] = A[k] + B[k]\<close>; keys that only \<open>B\<close> has raise nothing and are
  not in the result. When some key of \<open>A\<close> is missing from \<open>B\<close> it fails with a
  \<open>KeyError\<close> for such a key.
\<close>

theorem dictionary_add_contract:
  assumes "distinct (keys A)"
  shows "(set (keys A) \<subseteq> set (keys B) \<longrightarrow>
           (\<exists>C. dictionary_add A B = Inr C \<and> keys C = keys A \<and>
                (\<forall>k a b. map_of A k = Some a \<longrightarrow> map_of B k = Some b \<longrightarrow>
                         map_of C k = Some (a + b))))
       \<and> (\<not> set (keys A) \<subseteq> set (keys B) \<longrightarrow>
           (\<exists>k. dictionary_add A B = Inl (KeyError k) \<and> k \<in> set (keys A) \<and> k \<notin> set (keys B)))"
proof (intro conjI impI)
  assume sub: "set (keys A) \<subseteq> set (keys B)"
  let ?C = "map (\<lambda>(k, v). (k, v + the (map_of B k))) A"
  have 1: "dictionary_add A B = Inr ?C" by (rule dictionary_add_ok[OF assms sub])
  have 2: "keys ?C = keys A" by simp
  have 3: "\<forall>k a b. map_of A k = Some a \<longrightarrow> map_of B k = Some b \<longrightarrow> map_of ?C k = Some (a + b)"
    by (simp add: map_of_map_values)
  show "\<exists>C. dictionary_add A B = Inr C \<and> keys C = keys A \<and>
      (\<forall>k a b. map_of A k = Some a \<longrightarrow> map_of B k = Some b \<longrightarrow> map_of C k = Some (a + b))"
    using 1 2 3 by (intro exI[of _ ?C] conjI)
next
  assume "\<not> set (keys A) \<subseteq> set (keys B)"
  from find_missing_key[OF this] obtain k where
    k: "find (\<lambda>k. k \<notin> set (keys B)) (keys A) = Some k" "k \<in> set (keys A)" "k \<notin> set (keys B)"
    by (elim exE conjE)
  have "dictionary_add A B = Inl (KeyError k)" by (rule dictionary_add_missing[OF k(1)])
  with k(2,3) show "\<exists>k. dictionary_add A B = Inl (KeyError k) \<and> k \<in> set (keys A) \<and> k \<notin> set (keys B)"
    by (intro exI[of _ k] conjI)
qed

theorem dictionary_add_contract_witness:
  "distinct (keys [(''w'', 1 :: real), (''b'', 2)])
   \<and> set (keys [(''w'', 1 :: real), (''b'', 2)]) \<subseteq> set (keys [(''b'', 20 :: real), (''x'', 5), (''w'', 10)])
   \<and> (\<exists>C. dictionary_add [(''w'', 1 :: real), (''b'', 2)] [(''b'', 20), (''x'', 5), (''w'', 10)] = Inr C
         \<and> keys C = [''w'', ''b''] \<and> map_of C ''w'' = Some 11 \<and> map_of C ''b'' = Some 22)
   \<and> \<not> set (keys [(''w'', 1 :: real), (''b'', 2)]) \<subseteq> set (keys [(''w'', 10 :: real)])
   \<and> (\<exists>k. dictionary_add [(''w'', 1 :: real), (''b'', 2)] [(''w'', 10)] = Inl (KeyError k)
         \<and> k \<in> set (keys [(''w'', 1 :: real), (''b'', 2)]) \<and> k \<notin> set (keys [(''w'', 10 :: real)]))"
proof -
  let ?A = "[(''w'', 1 :: real), (''b'', 2)]"
  let ?B = "[(''b'', 20 :: real), (''x'', 5), (''w'', 10)]"
  let ?B' = "[(''w'', 10 :: real)]"
  have h: "distinct (keys ?A)" by (simp add: keys_def)
  have sub: "set (keys ?A) \<subseteq> set (keys ?B)" by (simp add: keys_def)
  have nsub: "\<not> set (keys ?A) \<subseteq> set (keys ?B')" by (simp add: keys_def)
  have kA: "keys ?A = [''w'', ''b'']" by (simp add: keys_def)
  have "\<exists>C. dictionary_add ?A ?B = Inr C \<and> keys C = keys ?A \<and>
          (\<forall>k a b. map_of ?A k = Some a \<longrightarrow> map_of ?B k = Some b \<longrightarrow> map_of C k = Some (a + b))"
    by (rule dictionary_add_contract[OF h, of ?B, THEN conjunct1, THEN mp, OF sub])
  then obtain C where C: "dictionary_add ?A ?B = Inr C" "keys C = keys ?A"
    and v: "\<forall>k a b. map_of ?A k = Some a \<longrightarrow> map_of ?B k = Some b \<longrightarrow> map_of C k = Some (a + b)"
    by (elim exE conjE)
  have w: "map_of C ''w'' = Some 11" using v[rule_format, of "''w''" 1 10] by simp
  have b: "map_of C ''b'' = Some 22" using v[rule_format, of "''b''" 2 20] by simp
  have ok: "\<exists>C. dictionary_add ?A ?B = Inr C
         \<and> keys C = [''w'', ''b''] \<and> map_of C ''w'' = Some 11 \<and> map_of C ''b'' = Some 22"
    using C w b by (intro exI[of _ C]) (simp add: kA)
  have bad: "\<exists>k. dictionary_add ?A ?B' = Inl (KeyError k) \<and> k \<in> set (keys ?A) \<and> k \<notin> set (keys ?B')"
    by (rule dictionary_add_contract[OF h, of ?B', THEN conjunct2, THEN mp, OF nsub])
  from h sub ok nsub bad show ?thesis by (intro conjI)
qed

section \<open>The two copies of the estimator\<close>

text \<open>
  Claim C8. \<open>compute_gradient\<close> and \<open>compute_gradient_vector\<close> are extensionally equal:
  on the same forward pass, inputs, params, sampler, method and starting state they
  return the same gradient or fail with the same error, and leave the same state.
\<close>

theorem compute_gradient_vector_duplicate:
  "compute_gradient_vector forward_pass inputs params sampler shape method s
     = compute_gradient forward_pass inputs params sampler shape method s"
  unfolding compute_gradient_vector_def compute_gradient_def by (rule refl)

section \<open>Sampling a perturbation\<close>

lemma sample_perturbation_nth:
  assumes d: "distinct (keys params)" and i: "i < length params"
  shows "fst (sample_perturbation sampler shape params s) ! i =
    (fst (params ! i),
     fst (sample sampler (shape (snd (params ! i)))
            (world (snd (sample_perturbation sampler shape (take i params) s)))))"
proof -
  obtain k v where kv: "params ! i = (k, v)" by (cases "params ! i")
  define pre where "pre = take i params"
  define post where "post = drop (Suc i) params"
  have split: "params = pre @ (k, v) # post"
    using id_take_nth_drop[OF i] kv by (simp add: pre_def post_def)
  have len: "length pre = i" using i by (simp add: pre_def)
  have dk: "distinct (keys pre @ k # keys post)"
    using d unfolding split by (simp add: keys_def)
  obtain h1 s1 where r1: "sample_loop sampler shape pre [] s = (h1, s1)"
    by (cases "sample_loop sampler shape pre [] s")
  obtain x s2 where cs: "call_sample sampler (shape v) s1 = (x, s2)"
    by (cases "call_sample sampler (shape v) s1")
  have "\<exists>xs. fst (sample_loop sampler shape pre [] s) = [] @ xs \<and> keys xs = keys pre"
    using dk by (intro sample_loop_keys) (simp_all add: keys_def)
  then have kh1: "keys h1 = keys pre" by (simp add: r1)
  then have lh1: "length h1 = i" using len by (metis keys_def length_map)
  have fresh: "k \<notin> set (keys h1)" using dk kh1 by simp
  have "\<exists>xs. fst (sample_loop sampler shape post (h1 @ [(k, x)]) s2) = (h1 @ [(k, x)]) @ xs
          \<and> keys xs = keys post"
    using dk kh1 by (intro sample_loop_keys) (auto simp: keys_def)
  then obtain xs where xs: "fst (sample_loop sampler shape post (h1 @ [(k, x)]) s2) = h1 @ (k, x) # xs"
    by auto
  have "sample_perturbation sampler shape params s = sample_loop sampler shape post (h1 @ [(k, x)]) s2"
    unfolding sample_perturbation_def
    by (subst split) (simp add: sample_loop_append r1 cs setitem_fresh[OF fresh])
  then have "fst (sample_perturbation sampler shape params s) ! i = (k, x)"
    by (simp add: xs nth_append lh1)
  moreover have "x = fst (sample sampler (shape v) (world s1))"
    using cs by (auto simp: call_sample_def Let_def split: prod.splits)
  moreover have "s1 = snd (sample_perturbation sampler shape (take i params) s)"
    using r1 by (simp add: sample_perturbation_def pre_def)
  ultimately show ?thesis by (simp add: kv)
qed

text \<open>
  Claim C7. For every params dictionary (distinct keys, possibly empty) and every
  sampler, \<open>sample_perturbation\<close> returns a dictionary with the keys of params, in the
  same order. It calls the sampler once per entry, in order, with the shape of that
  entry, and the \<open>i\<close>-th entry of the result is what the sampler returned on the
  \<open>i\<close>-th call (made in the world the first \<open>i\<close> calls left). Empty params give an
  empty perturbation and no call.
\<close>

theorem sample_perturbation_spec:
  assumes "distinct (keys params)"
  shows "keys (fst (sample_perturbation sampler shape params s)) = keys params
       \<and> calls (snd (sample_perturbation sampler shape params s))
           = calls s @ map (\<lambda>(key, val). SampleCall (shape val)) params
       \<and> (\<forall>i < length params.
            fst (sample_perturbation sampler shape params s) ! i =
              (fst (params ! i),
               fst (sample sampler (shape (snd (params ! i)))
                      (world (snd (sample_perturbation sampler shape (take i params) s))))))
       \<and> sample_perturbation sampler shape [] s = ([], s)"
proof (intro conjI allI impI)
  show "keys (fst (sample_perturbation sampler shape params s)) = keys params"
    by (rule sample_perturbation_keys[OF assms])
  show "calls (snd (sample_perturbation sampler shape params s))
           = calls s @ map (\<lambda>(key, val). SampleCall (shape val)) params"
    by (rule sample_perturbation_calls)
  show "sample_perturbation sampler shape [] s = ([], s)"
    by (simp add: sample_perturbation_def)
next
  fix i assume "i < length params"
  then show "fst (sample_perturbation sampler shape params s) ! i =
              (fst (params ! i),
               fst (sample sampler (shape (snd (params ! i)))
                      (world (snd (sample_perturbation sampler shape (take i params) s)))))"
    by (rule sample_perturbation_nth[OF assms])
qed

theorem sample_perturbation_spec_witness:
  "distinct (keys [(''w'', 5 :: real), (''b'', 7)])
   \<and> keys (fst (sample_perturbation counting_sampler scalar_shape [(''w'', 5), (''b'', 7)]
        \<lparr>world = 0, calls = ([] :: (nat list, unit, real) call list)\<rparr>)) = [''w'', ''b'']
   \<and> (1 :: nat) < length [(''w'', 5 :: real), (''b'', 7)]
   \<and> fst (sample_perturbation counting_sampler scalar_shape [(''w'', 5), (''b'', 7)]
        \<lparr>world = 0, calls = ([] :: (nat list, unit, real) call list)\<rparr>) ! 1 = (''b'', 1)"
proof -
  let ?P = "[(''w'', 5 :: real), (''b'', 7)]"
  let ?s = "\<lparr>world = 0 :: nat, calls = ([] :: (nat list, unit, real) call list)\<rparr>"
  have h: "distinct (keys ?P)" by (simp add: keys_def)
  note T = sample_perturbation_spec[OF h, of counting_sampler scalar_shape ?s]
  have k: "keys (fst (sample_perturbation counting_sampler scalar_shape ?P ?s)) = [''w'', ''b'']"
    using T[THEN conjunct1] by (simp add: keys_def)
  have l: "(1 :: nat) < length ?P" by simp
  have "fst (sample_perturbation counting_sampler scalar_shape ?P ?s) ! 1 =
      (fst (?P ! 1), fst (sample counting_sampler (scalar_shape (snd (?P ! 1)))
         (world (snd (sample_perturbation counting_sampler scalar_shape (take 1 ?P) ?s)))))"
    by (rule T[THEN conjunct2, THEN conjunct2, THEN conjunct1, rule_format, OF l])
  also have "\<dots> = (''b'', 1)"
    by (simp add: sample_perturbation_def call_sample_def counting_sampler_def scalar_shape_def)
  finally show ?thesis using h k l by (intro conjI)
qed

section \<open>An invalid method\<close>

lemma compute_gradient_other:
  assumes "method \<noteq> ''ffd''" "method \<noteq> ''cfd''"
  shows "compute_gradient forward_pass inputs params sampler shape method s
       = (Inl (ValueError invalid_option), snd (sample_perturbation sampler shape params s))"
  using assms by (simp add: compute_gradient_def split: prod.splits)

lemma invalid_option_names_ffd: "sublist ''ffd'' invalid_option"
proof -
  have \<open>invalid_option = ''Invalid option given. Choose between: {"'' @ ''ffd'' @ ''", "cfd"}''\<close>
    by (simp add: invalid_option_def)
  then show ?thesis unfolding sublist_def by (intro exI)
qed

lemma invalid_option_names_cfd: "sublist ''cfd'' invalid_option"
proof -
  have \<open>invalid_option = ''Invalid option given. Choose between: {"ffd", "'' @ ''cfd'' @ ''"}''\<close>
    by (simp add: invalid_option_def)
  then show ?thesis unfolding sublist_def by (intro exI)
qed

lemma no_forward_in_samples:
  "filter is_forward (map (\<lambda>(key, val). SampleCall (shape val)) params) = []"
  by (induction params) auto

text \<open>
  Claim C3. For every method other than \<open>"ffd"\<close> and \<open>"cfd"\<close>, \<open>compute_gradient\<close> fails
  with a \<open>ValueError\<close> whose message contains both accepted values, and the calls it
  made before failing include no call of the forward pass.
\<close>

theorem compute_gradient_invalid_method:
  assumes "method \<notin> {''ffd'', ''cfd''}"
  shows "\<exists>msg s' new.
           compute_gradient forward_pass inputs params sampler shape method s
             = (Inl (ValueError msg), s')
         \<and> sublist ''ffd'' msg \<and> sublist ''cfd'' msg
         \<and> calls s' = calls s @ new \<and> filter is_forward new = []"
proof -
  let ?s' = "snd (sample_perturbation sampler shape params s)"
  let ?new = "map (\<lambda>(key, val). SampleCall (shape val)) params"
  from assms have m: "method \<noteq> ''ffd''" "method \<noteq> ''cfd''" by simp_all
  have 1: "compute_gradient forward_pass inputs params sampler shape method s
             = (Inl (ValueError invalid_option), ?s')"
    by (rule compute_gradient_other[OF m])
  have 2: "calls ?s' = calls s @ ?new" by (rule sample_perturbation_calls)
  have 3: "filter is_forward ?new = []" by (rule no_forward_in_samples)
  show ?thesis
    using 1 invalid_option_names_ffd invalid_option_names_cfd 2 3
    by (intro exI[of _ invalid_option] exI[of _ ?s'] exI[of _ ?new] conjI)
qed

theorem compute_gradient_invalid_method_witness:
  "''sgd'' \<notin> {''ffd'', ''cfd''}
   \<and> (\<exists>msg s' new.
         compute_gradient (counting_forward 2 5) () [(''w'', 0)] ones_sampler scalar_shape ''sgd''
           \<lparr>world = 0, calls = []\<rparr> = (Inl (ValueError msg), s')
       \<and> sublist ''ffd'' msg \<and> sublist ''cfd'' msg
       \<and> calls s' = [] @ new \<and> filter is_forward new = [])
   \<and> compute_gradient (counting_forward 2 5) () [(''w'', 0)] ones_sampler scalar_shape ''sgd''
        \<lparr>world = 0, calls = []\<rparr>
       = (Inl (ValueError invalid_option), \<lparr>world = 0, calls = [SampleCall []]\<rparr>)"
proof -
  have h: "''sgd'' \<notin> {''ffd'', ''cfd''}" by simp
  have g: "\<exists>msg s' new.
         compute_gradient (counting_forward 2 5) () [(''w'', 0)] ones_sampler scalar_shape ''sgd''
           \<lparr>world = 0, calls = []\<rparr> = (Inl (ValueError msg), s')
       \<and> sublist ''ffd'' msg \<and> sublist ''cfd'' msg
       \<and> calls s' = [] @ new \<and> filter is_forward new = []"
    using compute_gradient_invalid_method[OF h, of "counting_forward 2 5" "()" "[(''w'', 0)]"
        ones_sampler scalar_shape "\<lparr>world = 0, calls = []\<rparr>"]
    by simp
  have r: "compute_gradient (counting_forward 2 5) () [(''w'', 0)] ones_sampler scalar_shape ''sgd''
        \<lparr>world = 0, calls = []\<rparr>
       = (Inl (ValueError invalid_option), \<lparr>world = 0, calls = [SampleCall []]\<rparr>)"
    by (simp add: compute_gradient_def sample_perturbation_def call_sample_def ones_sampler_def
        scalar_shape_def)
  from h g r show ?thesis by (intro conjI)
qed

text \<open>
  Claim C10. For every method other than \<open>"ffd"\<close> and \<open>"cfd"\<close>, the failing call has
  still sampled the perturbation: the state it leaves is the state after
  \<open>sample_perturbation\<close>, and the call log has grown by one call of the sampler per entry
  of params.
\<close>

theorem compute_gradient_invalid_method_samples:
  assumes "method \<notin> {''ffd'', ''cfd''}"
  shows "\<exists>s'. compute_gradient forward_pass inputs params sampler shape method s
               = (Inl (ValueError invalid_option), s')
         \<and> s' = snd (sample_perturbation sampler shape params s)
         \<and> calls s' = calls s @ map (\<lambda>(key, val). SampleCall (shape val)) params"
proof -
  let ?s' = "snd (sample_perturbation sampler shape params s)"
  from assms have m: "method \<noteq> ''ffd''" "method \<noteq> ''cfd''" by simp_all
  have 1: "compute_gradient forward_pass inputs params sampler shape method s
             = (Inl (ValueError invalid_option), ?s')"
    by (rule compute_gradient_other[OF m])
  have 2: "calls ?s' = calls s @ map (\<lambda>(key, val). SampleCall (shape val)) params"
    by (rule sample_perturbation_calls)
  show ?thesis using 1 2 by (intro exI[of _ ?s'] conjI refl)
qed

theorem compute_gradient_invalid_method_samples_witness:
  "''adam'' \<notin> {''ffd'', ''cfd''}
   \<and> compute_gradient (counting_forward 2 5) () [(''w'', 0), (''b'', 0)] counting_sampler
        scalar_shape ''adam'' \<lparr>world = 0, calls = []\<rparr>
       = (Inl (ValueError invalid_option),
          \<lparr>world = 2, calls = [SampleCall [], SampleCall []]\<rparr>)"
proof -
  have h: "''adam'' \<notin> {''ffd'', ''cfd''}" by simp
  have s: "snd (sample_perturbation counting_sampler scalar_shape [(''w'', 0), (''b'', 0)]
              \<lparr>world = 0, calls = ([] :: (nat list, unit, real) call list)\<rparr>)
           = \<lparr>world = 2, calls = [SampleCall [], SampleCall []]\<rparr>"
    by (simp add: sample_perturbation_def call_sample_def counting_sampler_def scalar_shape_def
        numeral_2_eq_2)
  from compute_gradient_invalid_method_samples[OF h, of "counting_forward 2 5" "()"
      "[(''w'', 0), (''b'', 0)]" counting_sampler scalar_shape "\<lparr>world = 0, calls = []\<rparr>"]
  have "compute_gradient (counting_forward 2 5) () [(''w'', 0), (''b'', 0)] counting_sampler
        scalar_shape ''adam'' \<lparr>world = 0, calls = []\<rparr>
       = (Inl (ValueError invalid_option),
          \<lparr>world = 2, calls = [SampleCall [], SampleCall []]\<rparr>)"
    unfolding s by simp
  with h show ?thesis by (intro conjI)
qed

section \<open>The two finite-difference estimates\<close>









section \<open>The weight update rule\<close>


lemma fl_zero: "fl 0 = Finite 0"
  by (simp add: fl_def)




lemma py_truediv_Inr: "b \<noteq> Finite 0 \<Longrightarrow> \<exists>d. py_truediv a b = Inr d"
  by (cases b) auto


lemma update_weights_ok:
  assumes "distinct (keys gradient)" "set (keys gradient) \<subseteq> set (keys params)"
    and "py_square scale = Inr q" "py_truediv (py_neg lr) q = Inr c"
  shows "update_weights gradient params scale lr =
           Inr (map (\<lambda>(k, v). (k, py_mul c v + the (map_of params k))) gradient)"
proof -
  let ?f = "\<lambda>key val. case py_square scale of Inl e \<Rightarrow> Inl e
              | Inr q \<Rightarrow> (case py_truediv (py_neg lr) q of Inl e \<Rightarrow> Inl e
                  | Inr c \<Rightarrow> Inr (py_mul c val))"
  let ?d = "map (\<lambda>(k, v). (k, py_mul c v)) gradient"
  have d: "dict_comp ?f gradient [] = Inr ?d"
    using assms(1) by (intro dict_comp_ok[where acc = "[]", simplified])
      (auto simp: keys_def assms(3,4))
  have "update_weights gradient params scale lr = dictionary_add ?d params"
    unfolding update_weights_def d by simp
  also have "\<dots> = Inr (map (\<lambda>(k, v). (k, v + the (map_of params k))) ?d)"
    using assms(1,2) by (intro dictionary_add_ok) simp_all
  also have "map (\<lambda>(k, v). (k, v + the (map_of params k))) ?d
      = map (\<lambda>(k, v). (k, py_mul c v + the (map_of params k))) gradient"
    by (simp add: case_prod_unfold)
  finally show ?thesis .
qed

lemma update_weights_Inr_keys:
  assumes "distinct (keys gradient)" "update_weights gradient params scale lr = Inr r"
  shows "keys r = keys gradient"
proof -
  let ?f = "\<lambda>key val. case py_square scale of Inl e \<Rightarrow> Inl e
              | Inr q \<Rightarrow> (case py_truediv (py_neg lr) q of Inl e \<Rightarrow> Inl e
                  | Inr c \<Rightarrow> Inr (py_mul c val))"
  show ?thesis
  proof (cases "dict_comp ?f gradient []")
    case (Inl e)
    with assms(2) show ?thesis unfolding update_weights_def by simp
  next
    case (Inr d)
    have kd: "keys d = keys gradient"
      using dict_comp_keys[OF Inr assms(1)] by (simp add: keys_def)
    from assms(2) Inr have "dictionary_add d params = Inr r"
      unfolding update_weights_def by simp
    from dictionary_add_keys[OF this] assms(1) kd show ?thesis by simp
  qed
qed

lemma py_add_zero_left: "is_float p \<Longrightarrow> py_add (Finite 0) p = p"
  by (cases p) auto

lemma zero_coefficient:
  assumes "q \<noteq> Finite 0" "q \<noteq> NaN"
  shows "py_truediv (py_neg (Finite 0)) q = Inr (Finite 0)"
  using assms by (cases q) (auto simp: fl_zero)

lemma zero_times_finite: "is_finite g \<Longrightarrow> py_mul (Finite 0) g = Finite 0"
  by (cases g) (auto simp: fl_zero)




text \<open>
  Claim C9. The dictionary returned by \<open>update_weights gradient params scale lr\<close> has
  exactly the keys of the gradient (in the gradient's order), whenever it returns; and
  it does return when params has every key of the gradient and the square of the scale
  neither overflows nor is zero. A key that params has and the gradient lacks is not
  in the result.
\<close>

theorem update_weights_keys:
  assumes "distinct (keys gradient)"
  shows "(\<forall>r. update_weights gradient params scale lr = Inr r \<longrightarrow> keys r = keys gradient)
       \<and> (set (keys gradient) \<subseteq> set (keys params) \<and> py_square scale = Inr q \<and> q \<noteq> Finite 0 \<longrightarrow>
            (\<exists>r. update_weights gradient params scale lr = Inr r \<and> keys r = keys gradient
                 \<and> (\<forall>k. k \<in> set (keys params) \<and> k \<notin> set (keys gradient) \<longrightarrow> k \<notin> set (keys r))))"
proof (intro conjI allI impI)
  fix r assume "update_weights gradient params scale lr = Inr r"
  then show "keys r = keys gradient" by (rule update_weights_Inr_keys[OF assms])
next
  assume a: "set (keys gradient) \<subseteq> set (keys params) \<and> py_square scale = Inr q \<and> q \<noteq> Finite 0"
  then have sub: "set (keys gradient) \<subseteq> set (keys params)" and sq: "py_square scale = Inr q"
    and nz: "q \<noteq> Finite 0" by simp_all
  from py_truediv_Inr[OF nz, of "py_neg lr"] obtain c where c: "py_truediv (py_neg lr) q = Inr c" ..
  let ?r = "map (\<lambda>(k, v). (k, py_mul c v + the (map_of params k))) gradient"
  have 1: "update_weights gradient params scale lr = Inr ?r"
    by (rule update_weights_ok[OF assms sub sq c])
  have 2: "keys ?r = keys gradient" by simp
  have 3: "\<forall>k. k \<in> set (keys params) \<and> k \<notin> set (keys gradient) \<longrightarrow> k \<notin> set (keys ?r)"
    by simp
  show "\<exists>r. update_weights gradient params scale lr = Inr r \<and> keys r = keys gradient
          \<and> (\<forall>k. k \<in> set (keys params) \<and> k \<notin> set (keys gradient) \<longrightarrow> k \<notin> set (keys r))"
    using 1 2 3 by (intro exI[of _ ?r] conjI)
qed

theorem update_weights_keys_witness:
  "distinct (keys [(''w'', Finite 2)])
   \<and> set (keys [(''w'', Finite 2)]) \<subseteq> set (keys [(''w'', Finite 10), (''b'', Finite 1)])
   \<and> update_weights [(''w'', Finite 2)] [(''w'', Finite 10), (''b'', Finite 1)] (Finite 1)
        (Finite (1 / 10)) = Inr [(''w'', Finite (98 / 10))]
   \<and> keys [(''w'', Finite (98 / 10))] = keys [(''w'', Finite 2)]
   \<and> ''b'' \<in> set (keys [(''w'', Finite 10), (''b'', Finite 1)])
   \<and> ''b'' \<notin> set (keys [(''w'', Finite (98 / 10))])"
proof -
  let ?g = "[(''w'', Finite 2)]"
  let ?p = "[(''w'', Finite 10), (''b'', Finite 1)]"
  let ?r = "[(''w'', Finite (98 / 10))]"
  have h: "distinct (keys ?g)" by (simp add: keys_def)
  have sub: "set (keys ?g) \<subseteq> set (keys ?p)" by (simp add: keys_def)
  have run: "update_weights ?g ?p (Finite 1) (Finite (1 / 10)) = Inr ?r"
    by (simp add: update_weights_def dictionary_add_def getitem_def fl_def plus_pyfloat_def)
  have "keys ?r = keys ?g"
    by (rule update_weights_keys[OF h, of ?p "Finite 1" "Finite (1 / 10)", THEN conjunct1,
          rule_format, OF run])
  moreover have "''b'' \<in> set (keys ?p)" by (simp add: keys_def)
  moreover have "''b'' \<notin> set (keys ?r)" by (simp add: keys_def)
  ultimately show ?thesis using h sub run by (intro conjI)
qed

text \<open>
  Claim C5, as amended. When the gradient and params have the same key set, the
  entries of the gradient are finite, the entries of params are floats other than nan,
  and the square of the scale neither overflows nor is zero or nan, \<open>update_weights\<close>
  with \<open>lr = 0\<close> returns a dictionary equal to params: the same keys, each with the
  value params has.
\<close>

theorem update_weights_lr_zero:
  assumes "distinct (keys gradient)" "set (keys gradient) = set (keys params)"
    and "py_square scale = Inr q" "q \<noteq> Finite 0" "q \<noteq> NaN"
    and "\<forall>g \<in> snd ` set gradient. is_finite g"
    and "\<forall>p \<in> snd ` set params. is_float p \<and> p \<noteq> NaN"
  shows "\<exists>r. update_weights gradient params scale (Finite 0) = Inr r \<and> keys r = keys gradient
            \<and> map_of r = map_of params"
proof -
  have c: "py_truediv (py_neg (Finite 0)) q = Inr (Finite 0)"
    by (rule zero_coefficient[OF assms(4,5)])
  let ?r = "map (\<lambda>(k, v). (k, py_mul (Finite 0) v + the (map_of params k))) gradient"
  have 1: "update_weights gradient params scale (Finite 0) = Inr ?r"
    using assms(1,2) by (intro update_weights_ok[OF _ _ assms(3) c]) simp_all
  have 2: "keys ?r = keys gradient" by simp
  have 3: "map_of ?r = map_of params"
  proof
    fix k
    show "map_of ?r k = map_of params k"
    proof (cases "k \<in> set (keys gradient)")
      case True
      then obtain g where g: "map_of gradient k = Some g" using in_keys_map_of by blast
      from True assms(2) have "k \<in> set (keys params)" by simp
      then obtain p where p: "map_of params k = Some p" using in_keys_map_of by blast
      from g have "(k, g) \<in> set gradient" by (rule map_of_SomeD)
      then have "g \<in> snd ` set gradient" by force
      with assms(6) have fg: "is_finite g" by (rule bspec)
      from p have "(k, p) \<in> set params" by (rule map_of_SomeD)
      then have "p \<in> snd ` set params" by force
      with assms(7) have "is_float p \<and> p \<noteq> NaN" by (rule bspec)
      then have fp: "is_float p" by simp
      show ?thesis
        by (simp add: map_of_map_values g p zero_times_finite[OF fg] plus_pyfloat_def
            py_add_zero_left[OF fp])
    next
      case False
      then have "map_of gradient k = None" by (simp add: keys_def map_of_eq_None_iff)
      moreover from False assms(2) have "map_of params k = None"
        by (simp add: keys_def map_of_eq_None_iff)
      ultimately show ?thesis by (simp add: map_of_map_values)
    qed
  qed
  show ?thesis using 1 2 3 by (intro exI[of _ ?r] conjI)
qed

theorem update_weights_lr_zero_witness:
  "distinct (keys [(''w'', Finite 2), (''b'', Finite 4)])
   \<and> set (keys [(''w'', Finite 2), (''b'', Finite 4)]) = set (keys [(''b'', Finite 1), (''w'', Inf True)])
   \<and> py_square (Finite 3) = Inr (Finite 9) \<and> Finite 9 \<noteq> Finite 0 \<and> Finite 9 \<noteq> NaN
   \<and> is_finite (Finite 2) \<and> is_finite (Finite 4)
   \<and> is_float (Finite 1) \<and> Finite 1 \<noteq> NaN \<and> is_float (Inf True) \<and> Inf True \<noteq> NaN
   \<and> (\<exists>r. update_weights [(''w'', Finite 2), (''b'', Finite 4)] [(''b'', Finite 1), (''w'', Inf True)]
             (Finite 3) (Finite 0) = Inr r
        \<and> keys r = keys [(''w'', Finite 2), (''b'', Finite 4)]
        \<and> map_of r = map_of [(''b'', Finite 1), (''w'', Inf True)])"
proof -
  let ?g = "[(''w'', Finite 2), (''b'', Finite 4)]"
  let ?p = "[(''b'', Finite 1), (''w'', Inf True)]"
  have h: "distinct (keys ?g)" by (simp add: keys_def)
  have eq: "set (keys ?g) = set (keys ?p)" by (auto simp: keys_def)
  have sq: "py_square (Finite 3) = Inr (Finite 9)" by (simp add: fl_def)
  have nz: "Finite 9 \<noteq> Finite 0" by simp
  have nn: "Finite 9 \<noteq> NaN" by simp
  have f1: "is_finite (Finite 2)" "is_finite (Finite 4)" by simp_all
  have f2: "is_float (Finite 1)" "Finite 1 \<noteq> NaN" "is_float (Inf True)" "Inf True \<noteq> NaN"
    by (simp_all add: fl_def)
  have fg: "\<forall>g \<in> snd ` set ?g. is_finite g" by simp
  have fp: "\<forall>p \<in> snd ` set ?p. is_float p \<and> p \<noteq> NaN" by (simp add: fl_def)
  have "\<exists>r. update_weights ?g ?p (Finite 3) (Finite 0) = Inr r \<and> keys r = keys ?g
           \<and> map_of r = map_of ?p"
    by (rule update_weights_lr_zero[OF h eq sq nz nn fg fp])
  with h eq sq nz nn f1 f2 show ?thesis by (intro conjI)
qed

text \<open>
  Claim C5 as stated (any gradient, any params, any scale) fails: a key of params that
  the gradient lacks is dropped from the result, a key of the gradient that params
  lacks raises \<open>KeyError\<close>, a scale whose square is zero (\<open>0.0\<close>, or \<open>1e-200\<close>) raises
  \<open>ZeroDivisionError\<close>, and an infinite gradient entry gives nan, since \<open>0 * inf\<close> is nan.
\<close>

theorem update_weights_lr_zero_counterexample:
  "update_weights [(''w'', Finite 2)] [(''w'', Finite 10), (''b'', Finite 1)] (Finite 1) (Finite 0)
     = Inr [(''w'', Finite 10)]
   \<and> map_of [(''w'', Finite 10)] ''b'' \<noteq> map_of [(''w'', Finite 10), (''b'', Finite 1)] ''b''
   \<and> update_weights [(''w'', Finite 2)] [] (Finite 1) (Finite 0) = Inl (KeyError ''w'')
   \<and> update_weights [(''w'', Finite 2)] [(''w'', Finite 10)] (Finite 0) (Finite 0)
       = Inl ZeroDivisionError
   \<and> update_weights [(''w'', Finite 2)] [(''w'', Finite 10)] (Finite (1 / 10 ^ 200)) (Finite 0)
       = Inl ZeroDivisionError
   \<and> update_weights [(''w'', Inf False)] [(''w'', Finite 10)] (Finite 1) (Finite 0)
       = Inr [(''w'', NaN)]"
  by (simp add: update_weights_def dictionary_add_def getitem_def fl_def plus_pyfloat_def)

end
